theory Spec2Isabelle
  imports Main "HOL-Library.Sublist" "HOL-Library.List_Lexorder" "HOL-Library.Char_ord"
begin

section \<open>Python string primitives used by create_dependency_mapping.py\<close>

text \<open>
  Python \<open>str\<close> is modelled as \<^typ>\<open>string\<close>. \<open>s.startswith(p)\<close> is \<^term>\<open>prefix p s\<close>,
  \<open>s.endswith(p)\<close> is \<^term>\<open>suffix p s\<close> and \<open>p in s\<close> is \<^term>\<open>sublist p s\<close>.
  The other string methods the module calls are written out below.
\<close>

text \<open>\<open>s[:-n]\<close> for a positive literal \<open>n\<close>: all but the last \<open>n\<close> characters.\<close>

definition drop_last :: "nat \<Rightarrow> string \<Rightarrow> string" where
  "drop_last n s = take (length s - n) s"

text \<open>\<open>s.split(c)\<close> for a one-character separator: never empty, one more piece than separators.\<close>

fun split_on :: "char \<Rightarrow> string \<Rightarrow> string list" where
  "split_on c [] = [[]]"
| "split_on c (x # xs) =
     (if x = c then [] # split_on c xs
      else (let r = split_on c xs in (x # hd r) # tl r))"

text \<open>\<open>os.path.basename(p)\<close> on a POSIX system: \<open>i = p.rfind('/') + 1; return p[i:]\<close>.\<close>

fun rfind_char :: "char \<Rightarrow> string \<Rightarrow> nat option" where
  "rfind_char c [] = None"
| "rfind_char c (x # xs) =
     (case rfind_char c xs of
        Some i \<Rightarrow> Some (Suc i)
      | None \<Rightarrow> if x = c then Some 0 else None)"

definition basename :: "string \<Rightarrow> string" where
  "basename p = (case rfind_char CHR ''/'' p of None \<Rightarrow> p | Some i \<Rightarrow> drop (Suc i) p)"

text \<open>\<open>s.find(sub)\<close> and \<open>s.rfind(sub)\<close>: lowest and highest index of an occurrence.\<close>

fun str_find :: "string \<Rightarrow> string \<Rightarrow> nat option" where
  "str_find sub [] = (if sub = [] then Some 0 else None)"
| "str_find sub (x # xs) =
     (if prefix sub (x # xs) then Some 0 else map_option Suc (str_find sub xs))"

fun str_rfind :: "string \<Rightarrow> string \<Rightarrow> nat option" where
  "str_rfind sub [] = (if sub = [] then Some 0 else None)"
| "str_rfind sub (x # xs) =
     (case str_rfind sub xs of
        Some i \<Rightarrow> Some (Suc i)
      | None \<Rightarrow> if prefix sub (x # xs) then Some 0 else None)"

text \<open>\<open>s.replace(old, new, 1)\<close> for a non-empty \<open>old\<close>: the first occurrence only.\<close>

definition replace_first :: "string \<Rightarrow> string \<Rightarrow> string \<Rightarrow> string" where
  "replace_first old new s =
     (case str_find old s of
        None \<Rightarrow> s
      | Some i \<Rightarrow> take i s @ new @ drop (i + length old) s)"

text \<open>
  \<open>s.replace(old, new)\<close> for a non-empty \<open>old\<close>: every occurrence, scanning from the left
  without overlap. The counter is the number of characters of a match still to skip.
\<close>

fun replace_scan :: "string \<Rightarrow> string \<Rightarrow> nat \<Rightarrow> string \<Rightarrow> string" where
  "replace_scan old new k [] = []"
| "replace_scan old new (Suc k) (x # xs) = replace_scan old new k xs"
| "replace_scan old new 0 (x # xs) =
     (if prefix old (x # xs) then new @ replace_scan old new (length old - 1) xs
      else x # replace_scan old new 0 xs)"

definition replace_all :: "string \<Rightarrow> string \<Rightarrow> string \<Rightarrow> string" where
  "replace_all old new s = replace_scan old new 0 s"

text \<open>\<open>s.rsplit(sep, 1)\<close>: split once, at the last occurrence of \<open>sep\<close>.\<close>

definition rsplit1 :: "string \<Rightarrow> string \<Rightarrow> string list" where
  "rsplit1 sep s =
     (case str_rfind sep s of
        None \<Rightarrow> [s]
      | Some i \<Rightarrow> [take i s, drop (i + length sep) s])"

section \<open>Errors\<close>

text \<open>
  The exceptions the module can raise. The message of the \<open>ValueError\<close> is not modelled.
  \<open>ParseError\<close> stands for whatever \<open>open\<close> and \<open>ast.parse\<close> raise.
\<close>

datatype error = ValueError | IndexError | KeyError | ParseError

section \<open>get_model_name_from_filename\<close>

definition FILE_TYPE_PREFIXES :: "string list" where
  "FILE_TYPE_PREFIXES =
     [''modular_'', ''modeling_'', ''configuration_'', ''tokenization_'',
      ''processing_'', ''image_processing_'', ''feature_extractor_'']"

text \<open>Lines 20 to 24: the token the prefixes are matched against.\<close>

definition modified_filename :: "string \<Rightarrow> string" where
  "modified_filename filename =
     last (split_on CHR ''.''
       (basename (if suffix ''.py'' filename then drop_last 3 filename else filename)))"

definition get_model_name_from_filename :: "string \<Rightarrow> error + string" where
  "get_model_name_from_filename filename =
     (case find (\<lambda>p. prefix p (modified_filename filename)) FILE_TYPE_PREFIXES of
        None \<Rightarrow> Inl ValueError
      | Some file_prefix \<Rightarrow>
          (let model_name = replace_first file_prefix [] (modified_filename filename) in
           Inr (if file_prefix = ''image_processing_'' \<and> suffix ''_fast'' model_name
                then drop_last 5 model_name else model_name)))"

section \<open>extract_classes_and_imports\<close>

text \<open>
  The syntax tree as far as the module looks at it: a node is an \<open>ast.Import\<close>, an
  \<open>ast.ImportFrom\<close> with its \<open>module\<close> attribute (\<open>None\<close> for \<open>from . import x\<close>), or
  anything else; every node has child nodes.
\<close>

datatype node_kind = Import | ImportFrom "string option" | OtherNode

datatype ast = Node node_kind "ast list"

text \<open>\<open>ast.walk\<close>: breadth first over a queue, every node once.\<close>

function walk :: "ast list \<Rightarrow> ast list" where
  "walk [] = []"
| "walk (Node k cs # todo) = Node k cs # walk (todo @ cs)"
  by pat_completeness auto
termination
  by (relation "measure (\<lambda>todo. sum_list (map size todo))")
     (auto simp: size_list_conv_sum_list)

text \<open>Lines 76 to 79, the body of the loop over the walked nodes.\<close>

fun add_import :: "ast \<Rightarrow> string set \<Rightarrow> string set" where
  "add_import (Node (ImportFrom (Some module)) cs) imports =
     (if module \<noteq> [] \<and> (sublist ''.modeling_'' module \<or> sublist ''transformers.models'' module)
      then insert module imports else imports)"
| "add_import (Node k cs) imports = imports"

text \<open>
  Reading and parsing the file is the parameter \<open>parse\<close>; what it raises is passed on.
\<close>

definition extract_classes_and_imports ::
  "(string \<Rightarrow> error + ast) \<Rightarrow> string \<Rightarrow> error + string set" where
  "extract_classes_and_imports parse file_path =
     (case parse file_path of
        Inl e \<Rightarrow> Inl e
      | Inr tree \<Rightarrow> Inr (fold add_import (walk [tree]) {}))"

section \<open>Dictionaries\<close>

text \<open>
  A Python \<open>dict\<close> is an association list in insertion order with distinct keys;
  \<open>d[k] = v\<close> overwrites in place or appends, \<open>d[k]\<close> is \<^const>\<open>map_of\<close>.
\<close>

type_synonym ('k, 'v) dict = "('k \<times> 'v) list"

fun dict_set :: "('k, 'v) dict \<Rightarrow> 'k \<Rightarrow> 'v \<Rightarrow> ('k, 'v) dict" where
  "dict_set [] k v = [(k, v)]"
| "dict_set ((k', v') # d) k v =
     (if k' = k then (k, v) # d else (k', v') # dict_set d k v)"

definition keys :: "('k, 'v) dict \<Rightarrow> 'k list" where
  "keys d = map fst d"

section \<open>map_dependencies\<close>

text \<open>
  \<open>dependencies\<close> is a \<open>defaultdict(set)\<close>: the key of a file is created by the first
  \<open>dependencies[file_path].add(module)\<close>, so only when the file has an import that was kept.
\<close>

fun map_dependencies_loop ::
  "(string \<Rightarrow> error + ast) \<Rightarrow> string list \<Rightarrow> (string, string set) dict
     \<Rightarrow> error + (string, string set) dict" where
  "map_dependencies_loop parse [] dependencies = Inr dependencies"
| "map_dependencies_loop parse (file_path # py_files) dependencies =
     (case extract_classes_and_imports parse file_path of
        Inl e \<Rightarrow> Inl e
      | Inr class_to_file \<Rightarrow>
          map_dependencies_loop parse py_files
            (if class_to_file = {} then dependencies
             else dict_set dependencies file_path
                    ((case map_of dependencies file_path of None \<Rightarrow> {} | Some s \<Rightarrow> s)
                       \<union> class_to_file)))"

definition map_dependencies ::
  "(string \<Rightarrow> error + ast) \<Rightarrow> string list \<Rightarrow> error + (string, string set) dict" where
  "map_dependencies parse py_files = map_dependencies_loop parse py_files []"

section \<open>topological_sort\<close>

text \<open>\<open>node.rsplit("modular_", 1)[1].replace(".py", "")\<close>; the index raises when there is no
  \<open>modular_\<close> in the path.\<close>

definition node_name_of :: "string \<Rightarrow> error + string" where
  "node_name_of node =
     (let parts = rsplit1 ''modular_'' node in
      if 1 < length parts then Inr (replace_all ''.py'' [] (parts ! 1)) else Inl IndexError)"

fun collect_nodes :: "string list \<Rightarrow> error + string set" where
  "collect_nodes [] = Inr {}"
| "collect_nodes (node # rest) =
     (case node_name_of node of
        Inl e \<Rightarrow> Inl e
      | Inr n \<Rightarrow> (case collect_nodes rest of Inl e \<Rightarrow> Inl e | Inr s \<Rightarrow> Inr (insert n s)))"

definition dep_names_of :: "string set \<Rightarrow> error + string set" where
  "dep_names_of deps =
     (if \<exists>dep\<in>deps. isl (get_model_name_from_filename dep) then Inl ValueError
      else Inr ((\<lambda>dep. projr (get_model_name_from_filename dep)) ` deps))"

type_synonym graph = "(string, string set) dict"
type_synonym name_mapping = "(string, string) dict"

text \<open>Lines 50 to 55.\<close>

fun build_loop ::
  "string set \<Rightarrow> (string, string set) dict \<Rightarrow> graph \<times> name_mapping
     \<Rightarrow> error + graph \<times> name_mapping" where
  "build_loop nodes [] st = Inr st"
| "build_loop nodes ((node, deps) # rest) (graph, name_mapping) =
     (case node_name_of node of
        Inl e \<Rightarrow> Inl e
      | Inr node_name \<Rightarrow>
          (case dep_names_of deps of
             Inl e \<Rightarrow> Inl e
           | Inr dep_names \<Rightarrow>
               (let dependencies =
                      Set.filter (\<lambda>dep. dep \<in> nodes \<and> dep \<noteq> node_name) dep_names
                in build_loop nodes rest
                     (dict_set graph node_name dependencies,
                      dict_set name_mapping node_name node))))"

text \<open>Lines 46 to 55: the filtered graph and the reverse mapping.\<close>

definition build_graph ::
  "(string, string set) dict \<Rightarrow> error + graph \<times> name_mapping" where
  "build_graph dependencies =
     (case collect_nodes (keys dependencies) of
        Inl e \<Rightarrow> Inl e
      | Inr nodes \<Rightarrow> build_loop nodes dependencies ([], []))"

text \<open>Line 60 and line 64.\<close>

definition leaf_nodes_of :: "graph \<Rightarrow> string set" where
  "leaf_nodes_of graph = Set.filter (\<lambda>node. map_of graph node = Some {}) (set (keys graph))"

definition remove_leaves :: "string set \<Rightarrow> graph \<Rightarrow> graph" where
  "remove_leaves leaf_nodes graph =
     map (\<lambda>(node, deps). (node, deps - leaf_nodes))
       (filter (\<lambda>(node, deps). node \<notin> leaf_nodes) graph)"

text \<open>
  The loop of lines 58 to 64. \<open>list(leaf_nodes)\<close> lists a set in an order Python does not
  fix: it is the parameter \<open>to_list\<close>. The loop has no exit but the empty graph, so it is
  a partial function: \<open>None\<close> is the run that never ends.
\<close>

partial_function (option) peel ::
  "(string set \<Rightarrow> string list) \<Rightarrow> graph \<Rightarrow> string list \<Rightarrow> string list option" where
  "peel to_list graph sorting_list =
     (if 0 < length graph then
        peel to_list (remove_leaves (leaf_nodes_of graph) graph)
          (sorting_list @ to_list (leaf_nodes_of graph))
      else Some sorting_list)"

declare peel.simps [code]

text \<open>Line 66: \<open>name_mapping[x]\<close> raises \<open>KeyError\<close> on a missing key.\<close>

fun lookup_all :: "name_mapping \<Rightarrow> string list \<Rightarrow> error + string list" where
  "lookup_all name_mapping [] = Inr []"
| "lookup_all name_mapping (x # xs) =
     (case map_of name_mapping x of
        None \<Rightarrow> Inl KeyError
      | Some f \<Rightarrow> (case lookup_all name_mapping xs of Inl e \<Rightarrow> Inl e | Inr fs \<Rightarrow> Inr (f # fs)))"

definition topological_sort ::
  "(string set \<Rightarrow> string list) \<Rightarrow> (string, string set) dict \<Rightarrow> (error + string list) option" where
  "topological_sort to_list dependencies =
     (case build_graph dependencies of
        Inl e \<Rightarrow> Some (Inl e)
      | Inr (graph, name_mapping) \<Rightarrow>
          (case peel to_list graph [] of
             None \<Rightarrow> None
           | Some sorting_list \<Rightarrow> Some (lookup_all name_mapping sorting_list)))"

section \<open>find_priority_list\<close>

definition find_priority_list ::
  "(string set \<Rightarrow> string list) \<Rightarrow> (string \<Rightarrow> error + ast) \<Rightarrow> string list
     \<Rightarrow> (error + string list \<times> (string, string set) dict) option" where
  "find_priority_list to_list parse py_files =
     (case map_dependencies parse py_files of
        Inl e \<Rightarrow> Some (Inl e)
      | Inr dependencies \<Rightarrow>
          (case topological_sort to_list dependencies of
             None \<Rightarrow> None
           | Some (Inl e) \<Rightarrow> Some (Inl e)
           | Some (Inr ordered_files) \<Rightarrow> Some (Inr (ordered_files, dependencies))))"

section \<open>Notions the claims are stated with\<close>

text \<open>All nodes of a syntax tree: the tree itself and the nodes of its children.\<close>

fun subtrees :: "ast \<Rightarrow> ast set" where
  "subtrees (Node k cs) = insert (Node k cs) (\<Union>c\<in>set cs. subtrees c)"

text \<open>The recorded dependency edges of a graph: \<open>(a, b)\<close> when \<open>b\<close> is in the set stored
  for \<open>a\<close>.\<close>

definition edges :: "graph \<Rightarrow> (string \<times> string) set" where
  "edges g = {(a, b). \<exists>deps. (a, deps) \<in> set g \<and> b \<in> deps}"

text \<open>What is known of \<open>list(s)\<close> for a set \<open>s\<close>: every element, once.\<close>

definition lists_sets :: "(string set \<Rightarrow> string list) \<Rightarrow> bool" where
  "lists_sets to_list = (\<forall>S. finite S \<longrightarrow> set (to_list S) = S \<and> distinct (to_list S))"

text \<open>The graph after one iteration of the loop of lines 58 to 64.\<close>

definition peel_step :: "graph \<Rightarrow> graph" where
  "peel_step g = remove_leaves (leaf_nodes_of g) g"

text \<open>\<open>b\<close> stands at an earlier position of \<open>xs\<close> than \<open>a\<close>.\<close>

definition precedes :: "'a list \<Rightarrow> 'a \<Rightarrow> 'a \<Rightarrow> bool" where
  "precedes xs b a = (\<exists>i j. i < j \<and> j < length xs \<and> xs ! i = b \<and> xs ! j = a)"

text \<open>The invariant of the loop of lines 50 to 55.\<close>

definition graph_inv :: "string set \<Rightarrow> graph \<Rightarrow> name_mapping \<Rightarrow> bool" where
  "graph_inv nodes g nm =
     (distinct (keys g) \<and> keys nm = keys g \<and>
      (\<forall>(n, d)\<in>set g. d \<subseteq> nodes \<and> n \<notin> d) \<and>
      (\<forall>(n, f)\<in>set nm. node_name_of f = Inr n))"

text \<open>A graph whose keys are distinct and whose edges stay among its keys.\<close>

definition closed_graph :: "graph \<Rightarrow> bool" where
  "closed_graph g = (distinct (keys g) \<and> (\<forall>(n, d)\<in>set g. d \<subseteq> set (keys g)))"

section \<open>Example inputs\<close>

text \<open>
  Three modular files: \<open>a\<close> imports a modeling file of an untracked model, \<open>b\<close> imports
  \<open>a\<close>, itself and the standard library, and \<open>c\<close> has no import that is kept.
\<close>

definition example_tree_a :: ast where
  "example_tree_a =
     Node OtherNode
       [Node (ImportFrom (Some ''transformers.models.llama.modeling_llama'')) [],
        Node Import []]"

definition example_tree_b :: ast where
  "example_tree_b =
     Node OtherNode
       [Node (ImportFrom (Some ''..a.modeling_a'')) [],
        Node (ImportFrom (Some ''.modeling_b'')) [],
        Node (ImportFrom (Some ''os'')) [],
        Node OtherNode [Node (ImportFrom (Some ''..a.modeling_a'')) []]]"

definition example_tree_c :: ast where
  "example_tree_c = Node OtherNode [Node (ImportFrom None) [], Node Import []]"

definition example_parse :: "string \<Rightarrow> error + ast" where
  "example_parse f =
     (if f = ''m/a/modular_a.py'' then Inr example_tree_a
      else if f = ''m/b/modular_b.py'' then Inr example_tree_b
      else if f = ''m/c/modular_c.py'' then Inr example_tree_c
      else Inl ParseError)"

text \<open>Two files that import each other.\<close>

definition example_parse_cycle :: "string \<Rightarrow> error + ast" where
  "example_parse_cycle f =
     (if f = ''modular_p.py'' then Inr (Node OtherNode [Node (ImportFrom (Some ''..q.modeling_q'')) []])
      else if f = ''modular_q.py'' then Inr (Node OtherNode [Node (ImportFrom (Some ''..p.modeling_p'')) []])
      else Inl ParseError)"

definition example_files :: "string list" where
  "example_files = [''m/b/modular_b.py'', ''m/a/modular_a.py'', ''m/c/modular_c.py'']"

definition example_dependencies :: "(string, string set) dict" where
  "example_dependencies =
     [(''m/b/modular_b.py'', {''..a.modeling_a'', ''.modeling_b''}),
      (''m/a/modular_a.py'', {''transformers.models.llama.modeling_llama''})]"

definition example_graph :: graph where
  "example_graph = [(''b'', {''a''}), (''a'', {})]"

definition example_name_mapping :: name_mapping where
  "example_name_mapping = [(''b'', ''m/b/modular_b.py''), (''a'', ''m/a/modular_a.py'')]"

definition example_cycle_dependencies :: "(string, string set) dict" where
  "example_cycle_dependencies =
     [(''modular_p.py'', {''..q.modeling_q''}), (''modular_q.py'', {''..p.modeling_p''})]"

definition example_cycle_graph :: graph where
  "example_cycle_graph = [(''p'', {''q''}), (''q'', {''p''})]"

definition example_cycle_name_mapping :: name_mapping where
  "example_cycle_name_mapping = [(''p'', ''modular_p.py''), (''q'', ''modular_q.py'')]"

section \<open>Facts about the string primitives\<close>

lemma rfind_char_None: "rfind_char c s = None \<longleftrightarrow> c \<notin> set s"
  by (induction s) (auto split: option.splits)

lemma basename_plain: "CHR ''/'' \<notin> set s \<Longrightarrow> basename s = s"
  by (simp add: basename_def rfind_char_None[THEN iffD2])

lemma rfind_char_last: "c \<notin> set m \<Longrightarrow> rfind_char c (d @ c # m) = Some (length d)"
  by (induction d) (auto simp: rfind_char_None[THEN iffD2])

lemma basename_dir: "CHR ''/'' \<notin> set m \<Longrightarrow> basename (d @ CHR ''/'' # m) = m"
  by (simp add: basename_def rfind_char_last)

lemma split_on_plain: "c \<notin> set s \<Longrightarrow> split_on c s = [s]"
  by (induction s) (auto simp: Let_def)

lemma suffix_py_dot: "suffix ''.py'' s \<Longrightarrow> CHR ''.'' \<in> set s"
  by (auto simp: suffix_def)

lemma modified_filename_plain:
  "CHR ''.'' \<notin> set s \<Longrightarrow> CHR ''/'' \<notin> set s \<Longrightarrow> modified_filename s = s"
  using suffix_py_dot[of s] by (auto simp: modified_filename_def basename_plain split_on_plain)

lemma drop_last_append: "drop_last (length t) (s @ t) = s"
  by (simp add: drop_last_def)

lemma modified_filename_path:
  assumes "CHR ''.'' \<notin> set m" "CHR ''/'' \<notin> set m" "d = [] \<or> last d = CHR ''/''"
  shows "modified_filename (d @ m @ ''.py'') = m"
proof -
  have sfx: "suffix ''.py'' (d @ m @ ''.py'')"
    by (metis append.assoc suffixI)
  have dl: "drop_last 3 (d @ m @ ''.py'') = d @ m"
    by (simp add: drop_last_def)
  have "basename (d @ m) = m"
  proof (cases "d = []")
    case True then show ?thesis using assms by (simp add: basename_plain)
  next
    case False
    then obtain d' where d': "d = d' @ [CHR ''/'']"
      using assms(3) by (metis append_butlast_last_id)
    show ?thesis unfolding d' using basename_dir[OF assms(2), of d'] by simp
  qed
  then show ?thesis using sfx dl assms(1) by (simp add: modified_filename_def split_on_plain)
qed

section \<open>Facts about name resolution\<close>

lemma str_find_prefix: "prefix sub s \<Longrightarrow> str_find sub s = Some 0"
  by (cases s) auto

lemma replace_first_prefix: "replace_first p [] (p @ s) = s"
  by (simp add: replace_first_def str_find_prefix)

lemma find_prefix:
  "p \<in> set FILE_TYPE_PREFIXES \<Longrightarrow> find (\<lambda>q. prefix q (p @ s)) FILE_TYPE_PREFIXES = Some p"
proof -
  assume "p \<in> set FILE_TYPE_PREFIXES"
  then consider "p = ''modular_''" | "p = ''modeling_''" | "p = ''configuration_''"
    | "p = ''tokenization_''" | "p = ''processing_''" | "p = ''image_processing_''"
    | "p = ''feature_extractor_''"
    unfolding FILE_TYPE_PREFIXES_def by fastforce
  then show ?thesis
    by cases (simp_all add: FILE_TYPE_PREFIXES_def)
qed

lemma prefixes_plain:
  "p \<in> set FILE_TYPE_PREFIXES \<Longrightarrow> CHR ''.'' \<notin> set p \<and> CHR ''/'' \<notin> set p"
  by (auto simp: FILE_TYPE_PREFIXES_def)

lemma resolve_token:
  assumes "p \<in> set FILE_TYPE_PREFIXES" "modified_filename f = p @ s"
  shows "get_model_name_from_filename f =
           Inr (if p = ''image_processing_'' \<and> suffix ''_fast'' s then drop_last 5 s else s)"
  using assms by (simp add: get_model_name_from_filename_def find_prefix replace_first_prefix)

lemma resolve_plain:
  assumes "p \<in> set FILE_TYPE_PREFIXES" "CHR ''.'' \<notin> set s" "CHR ''/'' \<notin> set s"
  shows "get_model_name_from_filename (p @ s) =
           Inr (if p = ''image_processing_'' \<and> suffix ''_fast'' s then drop_last 5 s else s)"
proof -
  have "modified_filename (p @ s) = p @ s"
    using assms prefixes_plain[OF assms(1)] by (simp add: modified_filename_plain)
  then show ?thesis by (rule resolve_token[OF assms(1)])
qed

lemma str_rfind_append_None:
  assumes "str_rfind sub n = None" "str_rfind sub t = None" "t \<noteq> []" "hd t \<notin> set sub"
  shows "str_rfind sub (n @ t) = None"
  using assms(1)
proof (induction n)
  case Nil
  then show ?case using assms(2) by simp
next
  case (Cons x n)
  from Cons.prems have n: "str_rfind sub n = None" and np: "\<not> prefix sub (x # n)"
    by (auto split: option.splits if_splits)
  have "\<not> prefix sub (x # n @ t)"
  proof
    assume "prefix sub (x # n @ t)"
    then have "prefix sub ((x # n) @ t)" by simp
    then obtain us where us: "sub = (x # n) @ us" "prefix us t"
      using np unfolding prefix_append by blast
    have "us \<noteq> []" using us(1) np by auto
    then have "hd us = hd t" using us(2) assms(3) by (cases us; cases t) auto
    then show False using us(1) \<open>us \<noteq> []\<close> assms(4) by (cases us) auto
  qed
  then show ?case using Cons.IH[OF n] by simp
qed

lemma str_rfind_None: "str_rfind sub s = None \<longleftrightarrow> \<not> sublist sub s"
proof (induction s)
  case Nil
  then show ?case by auto
next
  case (Cons x s)
  then show ?case by (auto simp: sublist_Cons_right split: option.splits)
qed

lemma str_rfind_at:
  assumes "str_rfind sub (tl (sub @ t)) = None" "sub \<noteq> []"
  shows "str_rfind sub (d @ sub @ t) = Some (length d)"
proof (induction d)
  case Nil
  obtain x xs where x: "sub @ t = x # xs" using assms(2) by (cases "sub @ t") auto
  then have "prefix sub (x # xs)" by (metis prefixI)
  then show ?case using assms(1) x by simp
next
  case (Cons a d)
  then show ?case by simp
qed

lemma replace_py_tail: "CHR ''.'' \<notin> set n \<Longrightarrow> replace_scan ''.py'' [] 0 (n @ ''.py'') = n"
  by (induction n) auto

lemma node_name_of_path:
  assumes "CHR ''.'' \<notin> set n" "\<not> sublist ''modular_'' n"
  shows "node_name_of (d @ ''modular_'' @ n @ ''.py'') = Inr n"
proof -
  have "str_rfind ''modular_'' (n @ ''.py'') = None"
    by (rule str_rfind_append_None) (use assms(2) in \<open>simp_all add: str_rfind_None\<close>)
  then have "str_rfind ''modular_'' (tl (''modular_'' @ n @ ''.py'')) = None"
    by simp
  from str_rfind_at[OF this, of d]
  have "str_rfind ''modular_'' (d @ ''modular_'' @ n @ ''.py'') = Some (length d)" by simp
  then show ?thesis
    using assms(1) by (simp add: node_name_of_def rsplit1_def replace_all_def replace_py_tail)
qed

section \<open>Facts about extract_classes_and_imports\<close>

lemma walk_set: "set (walk todo) = (\<Union>t\<in>set todo. subtrees t)"
  by (induction todo rule: walk.induct) auto

lemma add_import_eq:
  "add_import node acc =
     acc \<union> {m. m \<noteq> [] \<and> (sublist ''.modeling_'' m \<or> sublist ''transformers.models'' m) \<and>
              (\<exists>cs. node = Node (ImportFrom (Some m)) cs)}"
  by (cases "(node, acc)" rule: add_import.cases) auto

lemma fold_add_import:
  "fold add_import nodes acc =
     acc \<union> {m. m \<noteq> [] \<and> (sublist ''.modeling_'' m \<or> sublist ''transformers.models'' m) \<and>
              (\<exists>cs. Node (ImportFrom (Some m)) cs \<in> set nodes)}"
proof (induction nodes arbitrary: acc)
  case Nil
  then show ?case by simp
next
  case (Cons node nodes)
  show ?case unfolding fold_simps Cons.IH add_import_eq[of node acc] by auto
qed

section \<open>Facts about dictionaries\<close>

lemma keys_dict_set:
  "keys (dict_set d k v) = (if k \<in> set (keys d) then keys d else keys d @ [k])"
  by (induction d) (force simp: keys_def)+

lemma set_dict_set:
  "distinct (keys d) \<Longrightarrow> set (dict_set d k v) = insert (k, v) {(a, b). (a, b) \<in> set d \<and> a \<noteq> k}"
proof (induction d)
  case Nil
  then show ?case by simp
next
  case (Cons p d)
  obtain a b where p: "p = (a, b)" by (cases p)
  from Cons.prems have d: "distinct (keys d)" and a: "a \<notin> fst ` set d"
    by (simp_all add: keys_def p)
  show ?case
  proof (cases "a = k")
    case True
    then show ?thesis using a by (force simp: p)
  next
    case False
    then show ?thesis using Cons.IH[OF d] by (auto simp: p)
  qed
qed

lemma map_of_dict_set: "map_of (dict_set d k v) = (map_of d)(k \<mapsto> v)"
  by (induction d) (auto simp: fun_eq_iff)

lemma set_keys_dict_set: "set (keys (dict_set d k v)) = insert k (set (keys d))"
  by (auto simp: keys_dict_set)

lemma distinct_dict_set: "distinct (keys d) \<Longrightarrow> distinct (keys (dict_set d k v))"
  by (simp add: keys_dict_set)

section \<open>Facts about the graph build\<close>

lemma node_name_of_error: "node_name_of f = Inl e \<Longrightarrow> e = IndexError"
  by (auto simp: node_name_of_def Let_def split: if_splits)

lemma get_model_name_error: "get_model_name_from_filename f = Inl e \<Longrightarrow> e = ValueError"
  by (auto simp: get_model_name_from_filename_def Let_def split: option.splits)

lemma collect_nodes_spec:
  "collect_nodes ks = Inr nodes \<Longrightarrow>
     nodes = {n. \<exists>f\<in>set ks. node_name_of f = Inr n} \<and> finite nodes"
proof (induction ks arbitrary: nodes)
  case Nil
  then show ?case by auto
next
  case (Cons k ks)
  from Cons.prems obtain n s where n: "node_name_of k = Inr n"
    and s: "collect_nodes ks = Inr s" and nodes: "nodes = insert n s"
    by (auto split: sum.splits)
  from Cons.IH[OF s] show ?case using n nodes by auto
qed

lemma collect_nodes_error:
  "collect_nodes ks = Inl e \<Longrightarrow> e = IndexError \<and> (\<exists>f\<in>set ks. node_name_of f = Inl IndexError)"
proof (induction ks)
  case Nil
  then show ?case by simp
next
  case (Cons k ks)
  then show ?case
    by (auto split: sum.splits dest: node_name_of_error)
qed

lemma dep_names_of_spec:
  assumes "dep_names_of deps = Inr names"
  shows "names = {n. \<exists>d\<in>deps. get_model_name_from_filename d = Inr n}"
proof -
  from assms have ok: "\<forall>d\<in>deps. \<not> isl (get_model_name_from_filename d)"
    and names: "names = (\<lambda>d. projr (get_model_name_from_filename d)) ` deps"
    by (auto simp: dep_names_of_def split: if_splits)
  show ?thesis
  proof (rule set_eqI)
    fix n
    show "n \<in> names \<longleftrightarrow> n \<in> {n. \<exists>d\<in>deps. get_model_name_from_filename d = Inr n}"
    proof
      assume "n \<in> names"
      then obtain d where d: "d \<in> deps" "n = projr (get_model_name_from_filename d)"
        using names by auto
      with ok have "get_model_name_from_filename d = Inr n"
        by (cases "get_model_name_from_filename d") auto
      with d show "n \<in> {n. \<exists>d\<in>deps. get_model_name_from_filename d = Inr n}" by auto
    next
      assume "n \<in> {n. \<exists>d\<in>deps. get_model_name_from_filename d = Inr n}"
      then obtain d where "d \<in> deps" "get_model_name_from_filename d = Inr n" by auto
      then show "n \<in> names" unfolding names by force
    qed
  qed
qed

lemma dep_names_of_error:
  "dep_names_of deps = Inl e \<Longrightarrow>
     e = ValueError \<and> (\<exists>m\<in>deps. get_model_name_from_filename m = Inl ValueError)"
proof -
  assume "dep_names_of deps = Inl e"
  then have e: "e = ValueError" and "\<exists>d\<in>deps. isl (get_model_name_from_filename d)"
    by (auto simp: dep_names_of_def split: if_splits)
  then obtain d x where "d \<in> deps" "get_model_name_from_filename d = Inl x"
    by (auto simp: isl_def)
  then show ?thesis using e get_model_name_error by blast
qed

lemma graph_inv_step:
  assumes inv: "graph_inv nodes g nm" and n: "node_name_of node = Inr n"
  shows "graph_inv nodes
           (dict_set g n (Set.filter (\<lambda>dep. dep \<in> nodes \<and> dep \<noteq> n) dep_names))
           (dict_set nm n node)"
proof -
  from inv have dg: "distinct (keys g)" and k: "keys nm = keys g"
    and g: "\<forall>(a, d)\<in>set g. d \<subseteq> nodes \<and> a \<notin> d"
    and m: "\<forall>(a, f)\<in>set nm. node_name_of f = Inr a"
    by (auto simp: graph_inv_def)
  have dn: "distinct (keys nm)" using dg k by simp
  show ?thesis
    unfolding graph_inv_def
  proof (intro conjI)
    show "distinct (keys (dict_set g n (Set.filter (\<lambda>dep. dep \<in> nodes \<and> dep \<noteq> n) dep_names)))"
      using dg by (rule distinct_dict_set)
    show "keys (dict_set nm n node) =
          keys (dict_set g n (Set.filter (\<lambda>dep. dep \<in> nodes \<and> dep \<noteq> n) dep_names))"
      by (simp add: keys_dict_set k)
    show "\<forall>(a, d)\<in>set (dict_set g n (Set.filter (\<lambda>dep. dep \<in> nodes \<and> dep \<noteq> n) dep_names)).
            d \<subseteq> nodes \<and> a \<notin> d"
      using g by (auto simp: set_dict_set[OF dg])
    show "\<forall>(a, f)\<in>set (dict_set nm n node). node_name_of f = Inr a"
      using m n by (auto simp: set_dict_set[OF dn])
  qed
qed

lemma build_loop_inv:
  "build_loop nodes items (g, nm) = Inr (g', nm') \<Longrightarrow> graph_inv nodes g nm \<Longrightarrow>
     graph_inv nodes g' nm' \<and>
     set (keys g') = set (keys g) \<union> {n. \<exists>f\<in>set (keys items). node_name_of f = Inr n}"
proof (induction items arbitrary: g nm)
  case Nil
  then show ?case by (simp add: keys_def)
next
  case (Cons item items)
  obtain node deps where item: "item = (node, deps)" by (cases item)
  from Cons.prems(1) obtain n dep_names where n: "node_name_of node = Inr n"
    and dn: "dep_names_of deps = Inr dep_names"
    and rest: "build_loop nodes items
                 (dict_set g n (Set.filter (\<lambda>dep. dep \<in> nodes \<and> dep \<noteq> n) dep_names),
                  dict_set nm n node) = Inr (g', nm')"
    by (auto simp: item Let_def split: sum.splits)
  from Cons.IH[OF rest graph_inv_step[OF Cons.prems(2) n]]
  have inv: "graph_inv nodes g' nm'"
    and ks: "set (keys g') =
             insert n (set (keys g)) \<union> {n. \<exists>f\<in>set (keys items). node_name_of f = Inr n}"
    by (simp_all add: set_keys_dict_set)
  have "{n'. \<exists>f\<in>set (keys (item # items)). node_name_of f = Inr n'} =
        insert n {n. \<exists>f\<in>set (keys items). node_name_of f = Inr n}"
    using n by (auto simp: item keys_def)
  then show ?case using inv ks by auto
qed

lemma build_loop_error:
  "build_loop nodes items st = Inl e \<Longrightarrow>
     (e = IndexError \<and> (\<exists>f\<in>set (keys items). node_name_of f = Inl IndexError)) \<or>
     (e = ValueError \<and>
        (\<exists>(f, ms)\<in>set items. \<exists>m\<in>ms. get_model_name_from_filename m = Inl ValueError))"
proof (induction items arbitrary: st)
  case Nil
  then show ?case by simp
next
  case (Cons item items)
  obtain node deps where item: "item = (node, deps)" by (cases item)
  obtain g nm where st: "st = (g, nm)" by (cases st)
  show ?case
  proof (cases "node_name_of node")
    case (Inl x)
    then show ?thesis using Cons.prems node_name_of_error[OF Inl]
      by (auto simp: item st keys_def)
  next
    case (Inr n)
    show ?thesis
    proof (cases "dep_names_of deps")
      case (Inl x)
      then show ?thesis using Cons.prems Inr dep_names_of_error[OF Inl]
        by (auto simp: item st)
    next
      case inr: (Inr dep_names)
      with Cons.prems Inr have "build_loop nodes items
          (dict_set g n (Set.filter (\<lambda>dep. dep \<in> nodes \<and> dep \<noteq> n) dep_names),
           dict_set nm n node) = Inl e"
        by (simp add: item st Let_def)
      from Cons.IH[OF this] show ?thesis by (auto simp: keys_def)
    qed
  qed
qed

lemma graph_inv_empty: "graph_inv nodes [] []"
  by (simp add: graph_inv_def keys_def)

lemma build_graph_inv:
  assumes "build_graph deps = Inr (g, nm)"
  shows "\<exists>nodes. collect_nodes (keys deps) = Inr nodes \<and> finite nodes \<and>
           graph_inv nodes g nm \<and> set (keys g) = nodes"
proof -
  from assms obtain nodes where c: "collect_nodes (keys deps) = Inr nodes"
    and b: "build_loop nodes deps ([], []) = Inr (g, nm)"
    by (auto simp: build_graph_def split: sum.splits)
  from collect_nodes_spec[OF c]
  have nodes: "nodes = {n. \<exists>f\<in>set (keys deps). node_name_of f = Inr n}" and fin: "finite nodes"
    by blast+
  from build_loop_inv[OF b graph_inv_empty]
  have "graph_inv nodes g nm" and "set (keys g) = nodes"
    unfolding nodes by (simp_all add: keys_def)
  then show ?thesis using c fin by blast
qed

lemma build_graph_error:
  assumes "build_graph deps = Inl e"
  shows "(e = IndexError \<and> (\<exists>f\<in>set (keys deps). node_name_of f = Inl IndexError)) \<or>
         (e = ValueError \<and>
            (\<exists>(f, ms)\<in>set deps. \<exists>m\<in>ms. get_model_name_from_filename m = Inl ValueError))"
proof (cases "collect_nodes (keys deps)")
  case (Inl x)
  then show ?thesis using assms collect_nodes_error[OF Inl] by (simp add: build_graph_def)
next
  case (Inr nodes)
  then have "build_loop nodes deps ([], []) = Inl e" using assms by (simp add: build_graph_def)
  then show ?thesis by (rule build_loop_error)
qed

lemma build_graph_closed:
  assumes "build_graph deps = Inr (g, nm)"
  shows "closed_graph g"
  using build_graph_inv[OF assms] by (auto simp: closed_graph_def graph_inv_def)

section \<open>Facts about one iteration of the loop\<close>

lemma leaf_nodes_of_eq:
  "distinct (keys g) \<Longrightarrow> leaf_nodes_of g = {n. (n, {}) \<in> set g}"
  by (auto simp: leaf_nodes_of_def keys_def map_of_eq_Some_iff rev_image_eqI)

lemma leaf_nodes_subset: "leaf_nodes_of g \<subseteq> set (keys g)"
  by (auto simp: leaf_nodes_of_def)

lemma finite_leaf_nodes: "finite (leaf_nodes_of g)"
  by (rule finite_subset[OF leaf_nodes_subset]) simp

lemma keys_remove_leaves: "keys (remove_leaves L g) = filter (\<lambda>n. n \<notin> L) (keys g)"
  by (induction g) (auto simp: remove_leaves_def keys_def)

lemma keys_peel_step: "keys (peel_step g) = filter (\<lambda>n. n \<notin> leaf_nodes_of g) (keys g)"
  by (simp add: peel_step_def keys_remove_leaves)

lemma set_remove_leaves:
  "set (remove_leaves L g) = {(n, d - L) |n d. (n, d) \<in> set g \<and> n \<notin> L}"
  by (auto simp: remove_leaves_def)

lemma edges_peel_step:
  "edges (peel_step g) = {(a, b). (a, b) \<in> edges g \<and> a \<notin> leaf_nodes_of g \<and> b \<notin> leaf_nodes_of g}"
  by (auto simp: edges_def peel_step_def set_remove_leaves)

lemma closed_peel_step: "closed_graph g \<Longrightarrow> closed_graph (peel_step g)"
  unfolding closed_graph_def keys_remove_leaves peel_step_def
  by (auto simp: set_remove_leaves)

lemma length_peel_step:
  assumes "leaf_nodes_of g \<noteq> {}"
  shows "length (peel_step g) < length g"
proof -
  from assms obtain n where n: "n \<in> leaf_nodes_of g" by auto
  then have "n \<in> set (keys g)" using leaf_nodes_subset by auto
  then have "length (filter (\<lambda>n. n \<notin> leaf_nodes_of g) (keys g)) < length (keys g)"
    using n by (intro length_filter_less) auto
  then show ?thesis
    unfolding keys_remove_leaves[symmetric] peel_step_def by (simp add: keys_def)
qed

lemma edges_closed: "closed_graph g \<Longrightarrow> edges g \<subseteq> set (keys g) \<times> set (keys g)"
  by (auto simp: closed_graph_def edges_def keys_def rev_image_eqI)

lemma leaf_exists:
  assumes c: "closed_graph g" and ne: "g \<noteq> []" and ac: "acyclic (edges g)"
  shows "leaf_nodes_of g \<noteq> {}"
proof -
  have "finite (edges g)"
    by (rule finite_subset[OF edges_closed[OF c]]) simp
  then have "wf ((edges g)\<inverse>)" using ac by (rule finite_acyclic_wf_converse)
  moreover obtain k where "k \<in> set (keys g)"
    using ne by (cases g) (auto simp: keys_def)
  ultimately obtain m where m: "m \<in> set (keys g)"
    and min: "\<And>y. (y, m) \<in> (edges g)\<inverse> \<Longrightarrow> y \<notin> set (keys g)"
    by (rule wfE_min) blast
  from m obtain d where d: "(m, d) \<in> set g" by (auto simp: keys_def)
  have "d = {}"
  proof (rule ccontr)
    assume "d \<noteq> {}"
    then obtain b where b: "b \<in> d" by auto
    then have "(m, b) \<in> edges g" using d by (auto simp: edges_def)
    then have "b \<notin> set (keys g)" using min by auto
    moreover have "b \<in> set (keys g)" using c d b by (auto simp: closed_graph_def)
    ultimately show False by simp
  qed
  then have "m \<in> leaf_nodes_of g"
    using d c by (simp add: leaf_nodes_of_eq closed_graph_def)
  then show ?thesis by auto
qed

lemma precedes_append_right: "precedes ys b a \<Longrightarrow> precedes (xs @ ys) b a"
proof -
  assume "precedes ys b a"
  then obtain i j where "i < j" "j < length ys" "ys ! i = b" "ys ! j = a"
    by (auto simp: precedes_def)
  then have "length xs + i < length xs + j \<and> length xs + j < length (xs @ ys) \<and>
             (xs @ ys) ! (length xs + i) = b \<and> (xs @ ys) ! (length xs + j) = a"
    by (simp add: nth_append)
  then show ?thesis unfolding precedes_def by blast
qed

lemma precedes_across: "b \<in> set xs \<Longrightarrow> a \<in> set ys \<Longrightarrow> precedes (xs @ ys) b a"
proof -
  assume "b \<in> set xs" "a \<in> set ys"
  then obtain i j where "i < length xs" "xs ! i = b" "j < length ys" "ys ! j = a"
    by (auto simp: in_set_conv_nth)
  then have "i < length xs + j \<and> length xs + j < length (xs @ ys) \<and>
             (xs @ ys) ! i = b \<and> (xs @ ys) ! (length xs + j) = a"
    by (simp add: nth_append)
  then show ?thesis unfolding precedes_def by blast
qed

lemma precedes_map: "precedes xs b a \<Longrightarrow> precedes (map f xs) (f b) (f a)"
  by (auto simp: precedes_def) (metis length_map nth_map order.strict_trans)

section \<open>Facts about the loop\<close>

lemma peel_Nil: "peel to_list [] acc = Some acc"
  by (subst peel.simps) simp

lemma peel_unfold:
  "g \<noteq> [] \<Longrightarrow> peel to_list g acc = peel to_list (peel_step g) (acc @ to_list (leaf_nodes_of g))"
  by (subst peel.simps) (simp add: peel_step_def)

lemma edge_source_not_leaf:
  assumes "distinct (keys g)" "(a, b) \<in> edges g"
  shows "a \<notin> leaf_nodes_of g"
proof
  assume "a \<in> leaf_nodes_of g"
  then have e: "(a, {}) \<in> set g" using assms(1) by (simp add: leaf_nodes_of_eq)
  from assms(2) obtain d where d: "(a, d) \<in> set g" "b \<in> d" by (auto simp: edges_def)
  from assms(1) e d(1) have "d = {}"
    unfolding keys_def by (metis map_of_is_SomeI option.inject)
  then show False using d(2) by simp
qed

lemma edges_Nil: "edges [] = {}"
  by (simp add: edges_def)

lemma acyclic_edges_Nil: "acyclic (edges [])"
  by (simp add: edges_Nil acyclic_def)

lemma edge_source_key: "(a, b) \<in> edges g \<Longrightarrow> a \<in> set (keys g)"
  by (auto simp: edges_def keys_def rev_image_eqI)

lemma peel_total:
  assumes tl: "lists_sets to_list"
  shows "closed_graph g \<Longrightarrow> acyclic (edges g) \<Longrightarrow>
     \<exists>rest. peel to_list g acc = Some (acc @ rest) \<and> set rest = set (keys g) \<and>
            distinct rest \<and> (\<forall>(a, b)\<in>edges g. precedes rest b a)"
proof (induction "length g" arbitrary: g acc rule: less_induct)
  case less
  show ?case
  proof (cases "g = []")
    case True
    then show ?thesis by (simp add: peel_Nil edges_Nil keys_def)
  next
    case False
    let ?L = "leaf_nodes_of g"
    let ?ls = "to_list ?L"
    let ?g' = "peel_step g"
    have L: "?L \<noteq> {}" using less.prems False by (intro leaf_exists)
    have ls: "set ?ls = ?L" "distinct ?ls"
      using tl finite_leaf_nodes[of g] by (auto simp: lists_sets_def)
    have dk: "distinct (keys g)" using less.prems(1) by (simp add: closed_graph_def)
    have c': "closed_graph ?g'" using less.prems(1) by (rule closed_peel_step)
    have "edges ?g' \<subseteq> edges g" by (auto simp: edges_peel_step)
    with less.prems(2) have a': "acyclic (edges ?g')" by (rule acyclic_subset)
    from less.hyps[OF length_peel_step[OF L] c' a', of "acc @ ?ls"]
    obtain rest where r: "peel to_list ?g' (acc @ ?ls) = Some ((acc @ ?ls) @ rest)"
      and sr: "set rest = set (keys ?g')" and dr: "distinct rest"
      and er: "\<forall>(a, b)\<in>edges ?g'. precedes rest b a"
      by blast
    have kr: "set rest = set (keys g) - ?L" using sr by (auto simp: keys_peel_step)
    have 1: "peel to_list g acc = Some (acc @ ?ls @ rest)"
      using peel_unfold[OF False, of to_list acc] r by simp
    have 2: "set (?ls @ rest) = set (keys g)"
      using ls(1) kr leaf_nodes_subset[of g] by auto
    have 3: "distinct (?ls @ rest)" using ls dr kr by auto
    have 4: "\<forall>(a, b)\<in>edges g. precedes (?ls @ rest) b a"
    proof (clarify)
      fix a b
      assume e: "(a, b) \<in> edges g"
      have "a \<notin> ?L" using dk e by (rule edge_source_not_leaf)
      then have ar: "a \<in> set rest" using kr edge_source_key[OF e] by simp
      show "precedes (?ls @ rest) b a"
      proof (cases "b \<in> ?L")
        case True
        then show ?thesis using ar ls(1) by (intro precedes_across) auto
      next
        case False
        then have "(a, b) \<in> edges ?g'" using e \<open>a \<notin> ?L\<close> by (simp add: edges_peel_step)
        then have "precedes rest b a" using er by auto
        then show ?thesis by (rule precedes_append_right)
      qed
    qed
    from 1 2 3 4 show ?thesis by blast
  qed
qed

lemma cycle_persists:
  assumes dk: "distinct (keys g)" and cyc: "(a, a) \<in> (edges g)\<^sup>+"
  shows "(a, a) \<in> (edges (peel_step g))\<^sup>+"
proof -
  have step: "(x, y) \<in> edges (peel_step g)" if "(x, y) \<in> edges g" "(y, z) \<in> edges g" for x y z
    using that edge_source_not_leaf[OF dk] by (auto simp: edges_peel_step)
  have "(x, y) \<in> (edges (peel_step g))\<^sup>+"
    if "(x, y) \<in> (edges g)\<^sup>+" "\<exists>z. (y, z) \<in> edges g" for x y
    using that
  proof (induction rule: trancl_induct)
    case (base y)
    then show ?case using step by blast
  next
    case (step y z)
    then obtain w where "(z, w) \<in> edges g" by blast
    with step have "(y, z) \<in> edges (peel_step g)"
      using \<open>\<And>z y x. \<lbrakk>(x, y) \<in> edges g; (y, z) \<in> edges g\<rbrakk> \<Longrightarrow> (x, y) \<in> edges (peel_step g)\<close>
      by blast
    moreover have "(x, y) \<in> (edges (peel_step g))\<^sup>+" using step by blast
    ultimately show ?case by (rule trancl_into_trancl[rotated])
  qed
  moreover from cyc obtain z where "(a, z) \<in> edges g" by (auto dest: tranclD)
  ultimately show ?thesis using cyc by blast
qed

lemma distinct_peel_step: "distinct (keys g) \<Longrightarrow> distinct (keys (peel_step g))"
  by (simp add: keys_peel_step)

lemma peel_returns_acyclic:
  assumes "peel to_list g acc = Some out"
  shows "distinct (keys g) \<longrightarrow> acyclic (edges g)"
proof (rule peel.raw_induct[where P = "\<lambda>tl g acc y. distinct (keys g) \<longrightarrow> acyclic (edges g)",
      OF _ assms])
  fix peel' :: "(string set \<Rightarrow> string list) \<Rightarrow> graph \<Rightarrow> string list \<Rightarrow> string list option"
  fix to_list graph sorting_list y
  assume IH: "\<And>tl g acc y. peel' tl g acc = Some y \<Longrightarrow> distinct (keys g) \<longrightarrow> acyclic (edges g)"
  assume run: "(if 0 < length graph
      then peel' to_list (remove_leaves (leaf_nodes_of graph) graph)
            (sorting_list @ to_list (leaf_nodes_of graph))
      else Some sorting_list) = Some y"
  show "distinct (keys graph) \<longrightarrow> acyclic (edges graph)"
  proof (cases "graph = []")
    case True
    then show ?thesis by (simp add: acyclic_edges_Nil)
  next
    case False
    with run have "peel' to_list (peel_step graph)
            (sorting_list @ to_list (leaf_nodes_of graph)) = Some y"
      by (simp add: peel_step_def)
    from IH[OF this] have ih: "distinct (keys (peel_step graph)) \<longrightarrow> acyclic (edges (peel_step graph))" .
    show ?thesis
    proof
      assume dk: "distinct (keys graph)"
      then have "acyclic (edges (peel_step graph))" using ih distinct_peel_step by blast
      then show "acyclic (edges graph)"
        using cycle_persists[OF dk] unfolding acyclic_def by blast
    qed
  qed
qed

lemma peel_cyclic_None:
  "distinct (keys g) \<Longrightarrow> \<not> acyclic (edges g) \<Longrightarrow> peel to_list g acc = None"
  using peel_returns_acyclic[of to_list g acc] by (cases "peel to_list g acc") auto

lemma stuck_iteration:
  "distinct (keys g) \<Longrightarrow> \<not> acyclic (edges g) \<Longrightarrow>
     \<exists>k. (peel_step ^^ k) g \<noteq> [] \<and> leaf_nodes_of ((peel_step ^^ k) g) = {}"
proof (induction "length g" arbitrary: g rule: less_induct)
  case less
  show ?case
  proof (cases "leaf_nodes_of g = {}")
    case True
    have "g \<noteq> []" using less.prems(2) acyclic_edges_Nil by auto
    then have "(peel_step ^^ 0) g \<noteq> [] \<and> leaf_nodes_of ((peel_step ^^ 0) g) = {}"
      using True by simp
    then show ?thesis by blast
  next
    case False
    from less.prems(2) obtain a where "(a, a) \<in> (edges g)\<^sup>+" by (auto simp: acyclic_def)
    then have "\<not> acyclic (edges (peel_step g))"
      using cycle_persists[OF less.prems(1)] by (auto simp: acyclic_def)
    from less.hyps[OF length_peel_step[OF False] distinct_peel_step[OF less.prems(1)] this]
    obtain k where "(peel_step ^^ k) (peel_step g) \<noteq> [] \<and>
        leaf_nodes_of ((peel_step ^^ k) (peel_step g)) = {}" by blast
    then have "(peel_step ^^ Suc k) g \<noteq> [] \<and> leaf_nodes_of ((peel_step ^^ Suc k) g) = {}"
      by (simp add: funpow_swap1)
    then show ?thesis by blast
  qed
qed

section \<open>Facts about topological_sort and map_dependencies\<close>

lemma collect_nodes_ok:
  "collect_nodes ks = Inr nodes \<Longrightarrow> f \<in> set ks \<Longrightarrow> \<exists>n. node_name_of f = Inr n"
  by (induction ks arbitrary: nodes) (auto split: sum.splits)

lemma key_lookup:
  "x \<in> set (keys d) \<Longrightarrow> \<exists>v. map_of d x = Some v \<and> (x, v) \<in> set d"
  by (induction d) (auto simp: keys_def)

lemma lookup_all_ok:
  "set sl \<subseteq> set (keys nm) \<Longrightarrow> lookup_all nm sl = Inr (map (\<lambda>x. the (map_of nm x)) sl)"
proof (induction sl)
  case Nil
  then show ?case by simp
next
  case (Cons x sl)
  then obtain f where "map_of nm x = Some f" using key_lookup[of x nm] by auto
  then show ?case using Cons by simp
qed

lemma name_mapping_name:
  assumes "graph_inv nodes g nm" "x \<in> set (keys nm)"
  shows "node_name_of (the (map_of nm x)) = Inr x"
proof -
  from key_lookup[OF assms(2)] obtain f where f: "map_of nm x = Some f" "(x, f) \<in> set nm"
    by blast
  from assms(1) have "\<forall>(n, f)\<in>set nm. node_name_of f = Inr n" by (simp add: graph_inv_def)
  with f(2) have "node_name_of f = Inr x" by blast
  then show ?thesis using f(1) by simp
qed

lemma name_mapping_inj:
  assumes "graph_inv nodes g nm"
  shows "inj_on (\<lambda>x. the (map_of nm x)) (set (keys nm))"
proof (rule inj_onI)
  fix a b
  assume a: "a \<in> set (keys nm)" and b: "b \<in> set (keys nm)"
    and eq: "the (map_of nm a) = the (map_of nm b)"
  have "(Inr a :: error + string) = node_name_of (the (map_of nm a))"
    by (rule name_mapping_name[OF assms a, symmetric])
  also have "\<dots> = node_name_of (the (map_of nm b))" by (simp only: eq)
  also have "\<dots> = Inr b" by (rule name_mapping_name[OF assms b])
  finally show "a = b" by (simp only: sum.inject)
qed

lemma name_mapping_defined:
  assumes "graph_inv nodes g nm" "a \<in> set (keys g)"
  shows "map_of nm a = Some (the (map_of nm a))"
proof -
  from assms have "a \<in> set (keys nm)" by (simp add: graph_inv_def)
  from key_lookup[OF this] show ?thesis by auto
qed

lemma sort_acyclic:
  assumes tl: "lists_sets to_list" and b: "build_graph deps = Inr (g, nm)"
    and ac: "acyclic (edges g)"
  shows "\<exists>sl. peel to_list g [] = Some sl \<and> set sl = set (keys g) \<and> distinct sl \<and>
           (\<forall>(a, b)\<in>edges g. precedes sl b a) \<and>
           topological_sort to_list deps = Some (Inr (map (\<lambda>x. the (map_of nm x)) sl)) \<and>
           distinct (map (\<lambda>x. the (map_of nm x)) sl)"
proof -
  from build_graph_inv[OF b] obtain nodes where inv: "graph_inv nodes g nm" by blast
  then have k: "keys nm = keys g" by (simp add: graph_inv_def)
  from peel_total[OF tl build_graph_closed[OF b] ac, of "[]"]
  obtain sl where p: "peel to_list g [] = Some sl" and s: "set sl = set (keys g)"
    and d: "distinct sl" and e: "\<forall>(a, b)\<in>edges g. precedes sl b a"
    by auto
  have "lookup_all nm sl = Inr (map (\<lambda>x. the (map_of nm x)) sl)"
    by (rule lookup_all_ok) (simp add: s k)
  then have t: "topological_sort to_list deps = Some (Inr (map (\<lambda>x. the (map_of nm x)) sl))"
    using b p by (simp add: topological_sort_def)
  have "inj_on (\<lambda>x. the (map_of nm x)) (set sl)"
    using name_mapping_inj[OF inv] by (simp add: s k)
  then have "distinct (map (\<lambda>x. the (map_of nm x)) sl)" using d by (simp add: distinct_map)
  with p s d e t show ?thesis by blast
qed

lemma sort_cyclic:
  assumes b: "build_graph deps = Inr (g, nm)" and cyc: "\<not> acyclic (edges g)"
  shows "peel to_list g [] = None \<and> topological_sort to_list deps = None"
proof -
  have "distinct (keys g)" using build_graph_closed[OF b] by (simp add: closed_graph_def)
  then have "peel to_list g [] = None" using cyc by (rule peel_cyclic_None)
  then show ?thesis using b by (simp add: topological_sort_def)
qed

lemma map_dependencies_loop_mono:
  "map_dependencies_loop parse fs d = Inr d' \<Longrightarrow> map_of d k = Some s \<Longrightarrow>
     \<exists>s'. map_of d' k = Some s' \<and> s \<subseteq> s'"
proof (induction fs arbitrary: d s)
  case Nil
  then show ?case by simp
next
  case (Cons f fs)
  from Cons.prems(1) obtain c where c: "extract_classes_and_imports parse f = Inr c"
    and rest: "map_dependencies_loop parse fs
        (if c = {} then d
         else dict_set d f ((case map_of d f of None \<Rightarrow> {} | Some s \<Rightarrow> s) \<union> c)) = Inr d'"
    by (auto split: sum.splits)
  let ?d = "if c = {} then d
         else dict_set d f ((case map_of d f of None \<Rightarrow> {} | Some s \<Rightarrow> s) \<union> c)"
  have "\<exists>s1. map_of ?d k = Some s1 \<and> s \<subseteq> s1"
    using Cons.prems(2) by (auto simp: map_of_dict_set)
  then obtain s1 where s1: "map_of ?d k = Some s1" "s \<subseteq> s1" by blast
  from Cons.IH[OF rest s1(1)] s1(2) show ?case by blast
qed

lemma map_dependencies_loop_keeps:
  "map_dependencies_loop parse fs d = Inr d' \<Longrightarrow> file \<in> set fs \<Longrightarrow>
   extract_classes_and_imports parse file = Inr S \<Longrightarrow> m \<in> S \<Longrightarrow>
     \<exists>ms. map_of d' file = Some ms \<and> m \<in> ms"
proof (induction fs arbitrary: d)
  case Nil
  then show ?case by simp
next
  case (Cons f fs)
  from Cons.prems(1) obtain c where c: "extract_classes_and_imports parse f = Inr c"
    and rest: "map_dependencies_loop parse fs
        (if c = {} then d
         else dict_set d f ((case map_of d f of None \<Rightarrow> {} | Some s \<Rightarrow> s) \<union> c)) = Inr d'"
    by (auto split: sum.splits)
  show ?case
  proof (cases "f = file")
    case True
    with c Cons.prems(3,4) have cS: "c = S" "c \<noteq> {}" by auto
    let ?d = "dict_set d f ((case map_of d f of None \<Rightarrow> {} | Some s \<Rightarrow> s) \<union> c)"
    have "map_of ?d file = Some ((case map_of d f of None \<Rightarrow> {} | Some s \<Rightarrow> s) \<union> c)"
      using True by (simp add: map_of_dict_set)
    from map_dependencies_loop_mono[OF _ this, of parse fs d'] rest cS
    show ?thesis using Cons.prems(4) by auto
  next
    case False
    then have "file \<in> set fs" using Cons.prems(2) by simp
    from Cons.IH[OF rest this Cons.prems(3,4)] show ?thesis .
  qed
qed

section \<open>The example inputs evaluated\<close>

lemma example_map_dependencies:
  "map_dependencies example_parse example_files = Inr example_dependencies"
  by code_simp

lemma example_build_graph:
  "build_graph example_dependencies = Inr (example_graph, example_name_mapping)"
  by code_simp

lemma example_cycle_map_dependencies:
  "map_dependencies example_parse_cycle [''modular_p.py'', ''modular_q.py''] =
     Inr example_cycle_dependencies"
  by code_simp

lemma example_cycle_build_graph:
  "build_graph example_cycle_dependencies = Inr (example_cycle_graph, example_cycle_name_mapping)"
  by code_simp

lemma example_collect_nodes:
  "collect_nodes (keys example_dependencies) = Inr {''b'', ''a''}"
  by code_simp

lemma example_edges: "edges example_graph = {(''b'', ''a'')}"
  by (auto simp: edges_def example_graph_def)

lemma example_acyclic: "acyclic (edges example_graph)"
  unfolding example_edges by (subst acyclic_insert) (simp add: acyclic_def)

lemma example_cyclic: "\<not> acyclic (edges example_cycle_graph)"
proof -
  have "(''p'', ''q'') \<in> edges example_cycle_graph" "(''q'', ''p'') \<in> edges example_cycle_graph"
    by (auto simp: edges_def example_cycle_graph_def)
  then have "(''p'', ''p'') \<in> (edges example_cycle_graph)\<^sup>+" by (rule trancl_trans[OF r_into_trancl r_into_trancl])
  then show ?thesis by (auto simp: acyclic_def)
qed

lemma lists_sets_sorted: "lists_sets sorted_list_of_set"
  by (simp add: lists_sets_def)

lemma example_run:
  "find_priority_list sorted_list_of_set example_parse example_files =
     Some (Inr ([''m/a/modular_a.py'', ''m/b/modular_b.py''], example_dependencies))"
  by code_simp

lemma example_sort:
  "topological_sort sorted_list_of_set example_dependencies =
     Some (Inr [''m/a/modular_a.py'', ''m/b/modular_b.py''])"
  by code_simp

lemma example_extract:
  "extract_classes_and_imports example_parse ''m/b/modular_b.py'' =
     Inr {''..a.modeling_a'', ''.modeling_b''}"
  by code_simp

lemma example_extract_a:
  "extract_classes_and_imports example_parse ''m/a/modular_a.py'' =
     Inr {''transformers.models.llama.modeling_llama''}"
  by code_simp

lemma self_loop_free_step:
  "\<forall>(n, d)\<in>set g. n \<notin> d \<Longrightarrow> \<forall>(n, d)\<in>set (peel_step g). n \<notin> d"
  by (auto simp: peel_step_def set_remove_leaves)

lemma self_loop_free_funpow:
  "\<forall>(n, d)\<in>set g. n \<notin> d \<Longrightarrow> \<forall>(n, d)\<in>set ((peel_step ^^ k) g). n \<notin> d"
  by (induction k) (simp_all add: self_loop_free_step)

section \<open>Claims about name resolution\<close>

text \<open>
  Claim C7. \<open>get_model_name_from_filename\<close> raises its \<open>ValueError\<close> (the spec's
  UnrecognizedFileKind) for every filename whose final token, the value of
  \<open>modified_filename\<close> after line 24, starts with none of the entries of
  \<open>FILE_TYPE_PREFIXES\<close>; it returns no name then.
\<close>

theorem unrecognized_file_kind:
  assumes "\<forall>p\<in>set FILE_TYPE_PREFIXES. \<not> prefix p (modified_filename filename)"
  shows "get_model_name_from_filename filename = Inl ValueError \<and>
         (\<forall>name. get_model_name_from_filename filename \<noteq> Inr name)"
proof -
  have "find (\<lambda>p. prefix p (modified_filename filename)) FILE_TYPE_PREFIXES = None"
    using assms by (simp add: find_None_iff)
  then show ?thesis by (simp add: get_model_name_from_filename_def)
qed

theorem unrecognized_file_kind_witness:
  "modified_filename ''src/utils_helpers.py'' = ''utils_helpers'' \<and>
   get_model_name_from_filename ''src/utils_helpers.py'' = Inl ValueError \<and>
   (\<forall>name. get_model_name_from_filename ''src/utils_helpers.py'' \<noteq> Inr name)"
proof -
  have m: "modified_filename ''src/utils_helpers.py'' = ''utils_helpers''" by code_simp
  have h: "\<forall>p\<in>set FILE_TYPE_PREFIXES. \<not> prefix p (modified_filename ''src/utils_helpers.py'')"
    unfolding m by (simp add: FILE_TYPE_PREFIXES_def)
  show ?thesis using unrecognized_file_kind[OF h] m by simp
qed

text \<open>
  Claim C8, as stated: every recognized prefix followed by any non-empty suffix resolves
  to that suffix. It fails when the suffix carries the extension or a directory
  separator: \<open>modeling_llama.py\<close> resolves to \<open>llama\<close>, and \<open>modeling_a/modeling_b\<close>
  to \<open>b\<close>.
\<close>

theorem prefix_suffix_counterexample:
  "''modeling_'' \<in> set FILE_TYPE_PREFIXES \<and> ''llama.py'' \<noteq> [] \<and> ''a/modeling_b'' \<noteq> [] \<and>
   get_model_name_from_filename (''modeling_'' @ ''llama.py'') = Inr ''llama'' \<and>
   get_model_name_from_filename (''modeling_'' @ ''llama.py'') \<noteq> Inr ''llama.py'' \<and>
   get_model_name_from_filename (''modeling_'' @ ''a/modeling_b'') = Inr ''b'' \<and>
   get_model_name_from_filename (''modeling_'' @ ''a/modeling_b'') \<noteq> Inr ''a/modeling_b''"
  by code_simp

text \<open>
  Claim C8, amended: for every recognized prefix \<open>p\<close> and every suffix \<open>s\<close> that contains
  neither a dot nor a slash, \<open>p\<close> followed by \<open>s\<close> resolves to \<open>s\<close>, without a trailing
  \<open>_fast\<close> when \<open>p\<close> is \<open>image_processing_\<close>.
\<close>

theorem prefix_suffix_resolves:
  assumes "p \<in> set FILE_TYPE_PREFIXES" "CHR ''.'' \<notin> set s" "CHR ''/'' \<notin> set s"
  shows "get_model_name_from_filename (p @ s) =
           Inr (if p = ''image_processing_'' \<and> suffix ''_fast'' s then drop_last 5 s else s)"
  using assms by (rule resolve_plain)

theorem prefix_suffix_resolves_witness:
  "''image_processing_'' \<in> set FILE_TYPE_PREFIXES \<and>
   CHR ''.'' \<notin> set ''vit_fast'' \<and> CHR ''/'' \<notin> set ''vit_fast'' \<and>
   get_model_name_from_filename (''image_processing_'' @ ''vit_fast'') = Inr ''vit''"
proof -
  have h1: "''image_processing_'' \<in> set FILE_TYPE_PREFIXES"
    by (simp add: FILE_TYPE_PREFIXES_def)
  have h2: "CHR ''.'' \<notin> set ''vit_fast''" and h3: "CHR ''/'' \<notin> set ''vit_fast''"
    by simp_all
  have "suffix ''_fast'' ''vit_fast''" by (simp add: suffix_to_prefix)
  then show ?thesis
    using prefix_suffix_resolves[OF h1 h2 h3] h1 by (simp add: drop_last_def)
qed

text \<open>
  Claim C9, as stated: for every non-empty name \<open>N\<close> the filenames
  \<open>image_processing_N_fast\<close> and \<open>image_processing_N\<close> resolve to the same name. It fails
  when \<open>N\<close> itself ends in \<open>_fast\<close> (the marker is stripped once), and when \<open>N\<close> holds a
  dot or a slash.
\<close>

theorem fast_variant_counterexample:
  "get_model_name_from_filename (''image_processing_'' @ ''x_fast'' @ ''_fast'') = Inr ''x_fast'' \<and>
   get_model_name_from_filename (''image_processing_'' @ ''x_fast'') = Inr ''x'' \<and>
   get_model_name_from_filename (''image_processing_'' @ ''x.py'' @ ''_fast'') = Inl ValueError \<and>
   get_model_name_from_filename (''image_processing_'' @ ''x.py'') = Inr ''x'' \<and>
   get_model_name_from_filename (''image_processing_'' @ ''a/modular_b'' @ ''_fast'') = Inr ''b_fast'' \<and>
   get_model_name_from_filename (''image_processing_'' @ ''a/modular_b'') = Inr ''b''"
  by code_simp

text \<open>
  Claim C9, amended: for every name \<open>N\<close> that contains neither a dot nor a slash and does
  not end in \<open>_fast\<close>, the filenames \<open>image_processing_N_fast\<close> and \<open>image_processing_N\<close>
  resolve to the same name, \<open>N\<close>.
\<close>

theorem fast_variant_same_entity:
  assumes "CHR ''.'' \<notin> set n" "CHR ''/'' \<notin> set n" "\<not> suffix ''_fast'' n"
  shows "get_model_name_from_filename (''image_processing_'' @ n @ ''_fast'') =
           get_model_name_from_filename (''image_processing_'' @ n) \<and>
         get_model_name_from_filename (''image_processing_'' @ n) = Inr n"
proof -
  have p: "''image_processing_'' \<in> set FILE_TYPE_PREFIXES"
    by (simp add: FILE_TYPE_PREFIXES_def)
  have "suffix ''_fast'' (n @ ''_fast'')" by (rule suffixI) simp
  moreover have "drop_last 5 (n @ ''_fast'') = n" by (simp add: drop_last_def)
  ultimately have "get_model_name_from_filename (''image_processing_'' @ n @ ''_fast'') = Inr n"
    using resolve_plain[OF p, of "n @ ''_fast''"] assms by simp
  moreover have "get_model_name_from_filename (''image_processing_'' @ n) = Inr n"
    using resolve_plain[OF p assms(1,2)] assms(3) by simp
  ultimately show ?thesis by simp
qed

theorem fast_variant_same_entity_witness:
  "CHR ''.'' \<notin> set ''vit'' \<and> CHR ''/'' \<notin> set ''vit'' \<and> \<not> suffix ''_fast'' ''vit'' \<and>
   get_model_name_from_filename ''image_processing_vit_fast'' = Inr ''vit'' \<and>
   get_model_name_from_filename ''image_processing_vit'' = Inr ''vit''"
proof -
  have h1: "CHR ''.'' \<notin> set ''vit''" and h2: "CHR ''/'' \<notin> set ''vit''" by simp_all
  have h3: "\<not> suffix ''_fast'' ''vit''" by (simp add: suffix_to_prefix)
  show ?thesis using fast_variant_same_entity[OF h1 h2 h3] h3 by simp
qed

text \<open>
  Claim C4, as stated: on every input path the node name of \<open>topological_sort\<close> (the text
  after the last \<open>modular_\<close>, without \<open>.py\<close>) equals the name
  \<open>get_model_name_from_filename\<close> gives. It fails when the model name itself holds
  \<open>modular_\<close>: the first one cuts at the last occurrence, the second at the first.
  It also fails when the name holds a dot or a slash, and when \<open>modular_\<close> does not
  start the file name.
\<close>

theorem node_name_counterexample:
  "node_name_of ''modular_foo_modular_bar.py'' = Inr ''bar'' \<and>
   get_model_name_from_filename ''modular_foo_modular_bar.py'' = Inr ''foo_modular_bar'' \<and>
   node_name_of ''modular_a.b.py'' = Inr ''a.b'' \<and>
   get_model_name_from_filename ''modular_a.b.py'' = Inl ValueError \<and>
   node_name_of ''modular_a/b.py'' = Inr ''a/b'' \<and>
   get_model_name_from_filename ''modular_a/b.py'' = Inl ValueError \<and>
   node_name_of ''my_modular_x.py'' = Inr ''x'' \<and>
   get_model_name_from_filename ''my_modular_x.py'' = Inl ValueError"
  by code_simp

text \<open>
  Claim C4, amended: for every path made of a directory part (empty, or ending in a
  slash), \<open>modular_\<close>, a name \<open>N\<close> and \<open>.py\<close>, where \<open>N\<close> contains no dot, no slash and no
  \<open>modular_\<close>, both procedures give \<open>N\<close>.
\<close>

theorem node_name_agrees:
  assumes "CHR ''.'' \<notin> set n" "CHR ''/'' \<notin> set n" "\<not> sublist ''modular_'' n"
    and "d = [] \<or> last d = CHR ''/''"
  shows "node_name_of (d @ ''modular_'' @ n @ ''.py'') = Inr n \<and>
         get_model_name_from_filename (d @ ''modular_'' @ n @ ''.py'') = Inr n"
proof -
  have "modified_filename (d @ (''modular_'' @ n) @ ''.py'') = ''modular_'' @ n"
    by (rule modified_filename_path) (use assms in auto)
  then have "modified_filename (d @ ''modular_'' @ n @ ''.py'') = ''modular_'' @ n" by simp
  from resolve_token[OF _ this]
  have "get_model_name_from_filename (d @ ''modular_'' @ n @ ''.py'') = Inr n"
    by (simp add: FILE_TYPE_PREFIXES_def)
  then show ?thesis using node_name_of_path[OF assms(1,3)] by simp
qed

theorem node_name_agrees_witness:
  "CHR ''.'' \<notin> set ''llama'' \<and> CHR ''/'' \<notin> set ''llama'' \<and> \<not> sublist ''modular_'' ''llama'' \<and>
   (''src/models/llama/'' = [] \<or> last ''src/models/llama/'' = CHR ''/'') \<and>
   node_name_of ''src/models/llama/modular_llama.py'' = Inr ''llama'' \<and>
   get_model_name_from_filename ''src/models/llama/modular_llama.py'' = Inr ''llama''"
proof -
  have h1: "CHR ''.'' \<notin> set ''llama''" and h2: "CHR ''/'' \<notin> set ''llama''" by simp_all
  have h3: "\<not> sublist ''modular_'' ''llama''" by code_simp
  have h4: "''src/models/llama/'' = [] \<or> last ''src/models/llama/'' = CHR ''/''" by simp
  show ?thesis using node_name_agrees[OF h1 h2 h3 h4] h3 by simp
qed

section \<open>Claims about import extraction\<close>

text \<open>
  Claim C10. For every parsed file, \<open>extract_classes_and_imports\<close> returns exactly the
  set of the non-empty module paths of the \<open>from X import Y\<close> nodes, anywhere in the
  tree, whose path contains \<open>.modeling_\<close> or \<open>transformers.models\<close>. An \<open>import X\<close> node
  and every other path add nothing, and a path met twice is in the set once.
\<close>

theorem extract_exact_imports:
  assumes "parse file_path = Inr tree"
  shows "extract_classes_and_imports parse file_path =
           Inr {module. module \<noteq> [] \<and>
                   (sublist ''.modeling_'' module \<or> sublist ''transformers.models'' module) \<and>
                   (\<exists>cs. Node (ImportFrom (Some module)) cs \<in> subtrees tree)}"
  using assms by (simp add: extract_classes_and_imports_def fold_add_import walk_set)

theorem extract_exact_imports_witness:
  "extract_classes_and_imports example_parse ''m/b/modular_b.py'' =
     Inr {module. module \<noteq> [] \<and>
             (sublist ''.modeling_'' module \<or> sublist ''transformers.models'' module) \<and>
             (\<exists>cs. Node (ImportFrom (Some module)) cs \<in> subtrees example_tree_b)} \<and>
   extract_classes_and_imports example_parse ''m/b/modular_b.py'' =
     Inr {''..a.modeling_a'', ''.modeling_b''}"
proof -
  have h: "example_parse ''m/b/modular_b.py'' = Inr example_tree_b"
    by (simp add: example_parse_def)
  from extract_exact_imports[of example_parse "''m/b/modular_b.py''" example_tree_b, OF h]
    example_extract
  show ?thesis by (rule conjI)
qed

section \<open>Claims about the dependency graph and the sort\<close>

text \<open>
  Claim C5. The filtered graph has no self-loop: no node name is in its own dependency
  set, in the graph as built by lines 46 to 55 and in the graph after any number of
  iterations of the loop, also when a file imports a module that resolves to its own
  name.
\<close>

theorem no_self_loops:
  assumes "build_graph dependencies = Inr (graph, name_mapping)"
  shows "(\<forall>(node_name, deps)\<in>set graph. node_name \<notin> deps) \<and>
         (\<forall>k. \<forall>(node_name, deps)\<in>set ((peel_step ^^ k) graph). node_name \<notin> deps)"
proof -
  from build_graph_inv[OF assms] have "\<forall>(n, d)\<in>set graph. n \<notin> d"
    by (auto simp: graph_inv_def)
  then show ?thesis using self_loop_free_funpow by blast
qed

theorem no_self_loops_witness:
  "build_graph example_dependencies = Inr (example_graph, example_name_mapping) \<and>
   ''.modeling_b'' \<in> the (map_of example_dependencies ''m/b/modular_b.py'') \<and>
   get_model_name_from_filename ''.modeling_b'' = Inr ''b'' \<and>
   node_name_of ''m/b/modular_b.py'' = Inr ''b'' \<and>
   (''b'', ''b'') \<notin> edges example_graph"
proof -
  have 1: "''.modeling_b'' \<in> the (map_of example_dependencies ''m/b/modular_b.py'')"
    by (simp add: example_dependencies_def)
  have 2: "get_model_name_from_filename ''.modeling_b'' = Inr ''b''" by code_simp
  have 3: "node_name_of ''m/b/modular_b.py'' = Inr ''b''" by code_simp
  from no_self_loops[OF example_build_graph]
  have "\<forall>(n, d)\<in>set example_graph. n \<notin> d" by blast
  then have "(''b'', ''b'') \<notin> edges example_graph" by (auto simp: edges_def)
  with example_build_graph 1 2 3 show ?thesis by blast
qed

text \<open>
  Claim C6. A module path that a file of the input imports, and whose name is not among
  the node names of the input files, is still in the raw dependency map of that file,
  is in no dependency set of the filtered graph, and raises nothing: a run that ends
  returns the raw map unchanged, or raises the \<open>ValueError\<close> of another module path,
  one that matches no prefix.
\<close>

theorem untracked_dependency:
  assumes md: "map_dependencies parse py_files = Inr dependencies"
    and cn: "collect_nodes (keys dependencies) = Inr nodes"
    and fp: "file_path \<in> set py_files"
    and ex: "extract_classes_and_imports parse file_path = Inr imports_of_file"
    and m: "module \<in> imports_of_file"
    and name: "get_model_name_from_filename module = Inr name"
    and un: "name \<notin> nodes"
  shows "(\<exists>ms. map_of dependencies file_path = Some ms \<and> module \<in> ms) \<and>
         (\<forall>graph name_mapping. build_graph dependencies = Inr (graph, name_mapping) \<longrightarrow>
            (\<forall>(n, d)\<in>set graph. name \<notin> d)) \<and>
         (\<forall>to_list r. lists_sets to_list \<longrightarrow>
            find_priority_list to_list parse py_files = Some r \<longrightarrow>
              (\<exists>ordered_files. r = Inr (ordered_files, dependencies)) \<or>
              (r = Inl ValueError \<and>
               (\<exists>(f, ms)\<in>set dependencies. \<exists>m'\<in>ms.
                  get_model_name_from_filename m' = Inl ValueError)))"
proof (intro conjI allI impI)
  show "\<exists>ms. map_of dependencies file_path = Some ms \<and> module \<in> ms"
    using md fp ex m unfolding map_dependencies_def
    by (rule map_dependencies_loop_keeps)
next
  fix graph name_mapping
  assume b: "build_graph dependencies = Inr (graph, name_mapping)"
  from build_graph_inv[OF b] cn have "graph_inv nodes graph name_mapping" by auto
  then have "\<forall>(n, d)\<in>set graph. d \<subseteq> nodes" by (auto simp: graph_inv_def)
  then show "\<forall>(n, d)\<in>set graph. name \<notin> d" using un by blast
next
  fix to_list r
  assume tl: "lists_sets to_list"
    and run: "find_priority_list to_list parse py_files = Some r"
  show "(\<exists>ordered_files. r = Inr (ordered_files, dependencies)) \<or>
        (r = Inl ValueError \<and>
         (\<exists>(f, ms)\<in>set dependencies. \<exists>m'\<in>ms.
            get_model_name_from_filename m' = Inl ValueError))"
  proof (cases "build_graph dependencies")
    case (Inl e)
    then have r: "r = Inl e" using run md
      by (simp add: find_priority_list_def topological_sort_def)
    from build_graph_error[OF Inl] collect_nodes_ok[OF cn]
    have "e = ValueError \<and>
          (\<exists>(f, ms)\<in>set dependencies. \<exists>m'\<in>ms.
             get_model_name_from_filename m' = Inl ValueError)"
      by fastforce
    then show ?thesis using r by blast
  next
    case (Inr p)
    obtain g nm where p: "p = (g, nm)" by (cases p)
    have b: "build_graph dependencies = Inr (g, nm)" using Inr p by simp
    show ?thesis
    proof (cases "peel to_list g []")
      case None
      then have "find_priority_list to_list parse py_files = None"
        using md b by (simp add: find_priority_list_def topological_sort_def)
      then show ?thesis using run by simp
    next
      case (Some sl)
      have "distinct (keys g)" using build_graph_closed[OF b] by (simp add: closed_graph_def)
      then have "acyclic (edges g)" using peel_returns_acyclic[OF Some] by blast
      from sort_acyclic[OF tl b this] obtain out
        where "topological_sort to_list dependencies = Some (Inr out)" by blast
      then have "r = Inr (out, dependencies)"
        using run md by (simp add: find_priority_list_def)
      then show ?thesis by blast
    qed
  qed
qed

theorem untracked_dependency_witness:
  "(\<exists>ms. map_of example_dependencies ''m/a/modular_a.py'' = Some ms \<and>
         ''transformers.models.llama.modeling_llama'' \<in> ms) \<and>
   get_model_name_from_filename ''transformers.models.llama.modeling_llama'' = Inr ''llama'' \<and>
   collect_nodes (keys example_dependencies) = Inr {''b'', ''a''} \<and>
   ''llama'' \<notin> {''b'', ''a''} \<and>
   ''llama'' \<notin> \<Union> (snd ` set example_graph) \<and>
   find_priority_list sorted_list_of_set example_parse example_files =
     Some (Inr ([''m/a/modular_a.py'', ''m/b/modular_b.py''], example_dependencies))"
proof -
  have f: "''m/a/modular_a.py'' \<in> set example_files" by (simp add: example_files_def)
  have m: "''transformers.models.llama.modeling_llama'' \<in>
           {''transformers.models.llama.modeling_llama''}" by simp
  have n: "get_model_name_from_filename ''transformers.models.llama.modeling_llama'' = Inr ''llama''"
    by code_simp
  have u: "''llama'' \<notin> {''b'', ''a''}" by simp
  note t = untracked_dependency[OF example_map_dependencies example_collect_nodes f
      example_extract_a m n u]
  from t have 1: "\<exists>ms. map_of example_dependencies ''m/a/modular_a.py'' = Some ms \<and>
         ''transformers.models.llama.modeling_llama'' \<in> ms" by blast
  from t example_build_graph have "\<forall>(n, d)\<in>set example_graph. ''llama'' \<notin> d" by blast
  then have 2: "''llama'' \<notin> \<Union> (snd ` set example_graph)" by auto
  from 1 n example_collect_nodes u 2 example_run show ?thesis by blast
qed

text \<open>
  Claim C1. When the filtered graph is free of cycles, \<open>find_priority_list\<close> returns, and
  for every edge of the filtered graph (\<open>a\<close> depends on \<open>b\<close>) the file of \<open>b\<close> stands at
  an earlier position of the returned list than the file of \<open>a\<close>. Here \<open>to_list\<close> is any
  way of listing a set, and the files were parsed and the graph built without an error.
\<close>

theorem valid_topological_order:
  assumes "lists_sets to_list"
    and "map_dependencies parse py_files = Inr dependencies"
    and "build_graph dependencies = Inr (graph, name_mapping)"
    and "acyclic (edges graph)"
  shows "\<exists>ordered_files.
           find_priority_list to_list parse py_files = Some (Inr (ordered_files, dependencies)) \<and>
           distinct ordered_files \<and>
           (\<forall>(a, b)\<in>edges graph. \<exists>fa fb.
              map_of name_mapping a = Some fa \<and> map_of name_mapping b = Some fb \<and>
              precedes ordered_files fb fa)"
proof -
  let ?f = "\<lambda>x. the (map_of name_mapping x)"
  from sort_acyclic[OF assms(1,3,4)] obtain sl
    where e: "\<forall>(a, b)\<in>edges graph. precedes sl b a"
      and t: "topological_sort to_list dependencies = Some (Inr (map ?f sl))"
      and d: "distinct (map ?f sl)"
    by blast
  from build_graph_inv[OF assms(3)] obtain nodes where inv: "graph_inv nodes graph name_mapping"
    by blast
  have 1: "find_priority_list to_list parse py_files = Some (Inr (map ?f sl, dependencies))"
    using assms(2) t by (simp add: find_priority_list_def)
  have 2: "\<forall>(a, b)\<in>edges graph. \<exists>fa fb.
              map_of name_mapping a = Some fa \<and> map_of name_mapping b = Some fb \<and>
              precedes (map ?f sl) fb fa"
  proof clarify
    fix a b
    assume ab: "(a, b) \<in> edges graph"
    then have "a \<in> set (keys graph)" "b \<in> set (keys graph)"
      using edges_closed[OF build_graph_closed[OF assms(3)]] by auto
    then have "map_of name_mapping a = Some (?f a)" "map_of name_mapping b = Some (?f b)"
      using name_mapping_defined[OF inv] by blast+
    moreover have "precedes (map ?f sl) (?f b) (?f a)"
      using e ab by (intro precedes_map) auto
    ultimately show "\<exists>fa fb. map_of name_mapping a = Some fa \<and>
        map_of name_mapping b = Some fb \<and> precedes (map ?f sl) fb fa"
      by blast
  qed
  from 1 d 2 show ?thesis by blast
qed

theorem valid_topological_order_witness:
  "(\<exists>ordered_files.
      find_priority_list sorted_list_of_set example_parse example_files =
        Some (Inr (ordered_files, example_dependencies)) \<and>
      distinct ordered_files \<and>
      (\<forall>(a, b)\<in>edges example_graph. \<exists>fa fb.
         map_of example_name_mapping a = Some fa \<and> map_of example_name_mapping b = Some fb \<and>
         precedes ordered_files fb fa)) \<and>
   find_priority_list sorted_list_of_set example_parse example_files =
     Some (Inr ([''m/a/modular_a.py'', ''m/b/modular_b.py''], example_dependencies)) \<and>
   edges example_graph = {(''b'', ''a'')}"
  using valid_topological_order[OF lists_sets_sorted example_map_dependencies
      example_build_graph example_acyclic] example_run example_edges
  by blast

text \<open>
  Claim C3. \<open>topological_sort\<close> returns, with every node of the graph emitted once,
  whenever the filtered graph is acyclic. When the filtered graph has a cycle, some
  iteration finds no leaf in a non-empty graph, and the loop never ends: \<open>peel\<close> and
  \<open>topological_sort\<close> have the value \<open>None\<close>.
\<close>

theorem sort_terminates_iff_acyclic:
  assumes "lists_sets to_list"
    and "build_graph dependencies = Inr (graph, name_mapping)"
  shows "(acyclic (edges graph) \<longrightarrow>
           (\<exists>sorting_list ordered_files.
              peel to_list graph [] = Some sorting_list \<and>
              set sorting_list = set (keys graph) \<and> distinct sorting_list \<and>
              topological_sort to_list dependencies = Some (Inr ordered_files) \<and>
              length ordered_files = length graph)) \<and>
         (\<not> acyclic (edges graph) \<longrightarrow>
           (\<exists>k. (peel_step ^^ k) graph \<noteq> [] \<and> leaf_nodes_of ((peel_step ^^ k) graph) = {}) \<and>
           peel to_list graph [] = None \<and>
           topological_sort to_list dependencies = None)"
proof (intro conjI impI)
  assume ac: "acyclic (edges graph)"
  from sort_acyclic[OF assms ac] obtain sl
    where p: "peel to_list graph [] = Some sl" and s: "set sl = set (keys graph)"
      and d: "distinct sl"
      and t: "topological_sort to_list dependencies =
                Some (Inr (map (\<lambda>x. the (map_of name_mapping x)) sl))"
    by blast
  have "distinct (keys graph)"
    using build_graph_closed[OF assms(2)] by (simp add: closed_graph_def)
  then have "length sl = length (keys graph)"
    using d s by (metis distinct_card)
  then have "length (map (\<lambda>x. the (map_of name_mapping x)) sl) = length graph"
    by (simp add: keys_def)
  with p s d t show "\<exists>sorting_list ordered_files.
              peel to_list graph [] = Some sorting_list \<and>
              set sorting_list = set (keys graph) \<and> distinct sorting_list \<and>
              topological_sort to_list dependencies = Some (Inr ordered_files) \<and>
              length ordered_files = length graph"
    by blast
next
  assume cyc: "\<not> acyclic (edges graph)"
  have dk: "distinct (keys graph)"
    using build_graph_closed[OF assms(2)] by (simp add: closed_graph_def)
  show "\<exists>k. (peel_step ^^ k) graph \<noteq> [] \<and> leaf_nodes_of ((peel_step ^^ k) graph) = {}"
    using dk cyc by (rule stuck_iteration)
  show "peel to_list graph [] = None"
    using sort_cyclic[OF assms(2) cyc] by blast
  show "topological_sort to_list dependencies = None"
    using sort_cyclic[OF assms(2) cyc] by blast
qed

theorem sort_terminates_iff_acyclic_witness:
  "acyclic (edges example_graph) \<and>
   topological_sort sorted_list_of_set example_dependencies =
     Some (Inr [''m/a/modular_a.py'', ''m/b/modular_b.py'']) \<and>
   (\<exists>sorting_list. peel sorted_list_of_set example_graph [] = Some sorting_list \<and>
      set sorting_list = set (keys example_graph)) \<and>
   \<not> acyclic (edges example_cycle_graph) \<and>
   (\<exists>k. (peel_step ^^ k) example_cycle_graph \<noteq> [] \<and>
        leaf_nodes_of ((peel_step ^^ k) example_cycle_graph) = {}) \<and>
   peel sorted_list_of_set example_cycle_graph [] = None \<and>
   topological_sort sorted_list_of_set example_cycle_dependencies = None"
  using sort_terminates_iff_acyclic[OF lists_sets_sorted example_build_graph]
    sort_terminates_iff_acyclic[OF lists_sets_sorted example_cycle_build_graph]
    example_acyclic example_cyclic example_sort
  by blast

text \<open>
  Claim C2 says that every input file is in the returned list, also a file with no
  import that is kept. The code drops such a file: \<open>map_dependencies\<close> creates the key of
  a file only when it adds an import to it, and \<open>topological_sort\<close> sees the keys only.
  In the example, \<open>m/c/modular_c.py\<close> is an input and is not returned; alone, it gives
  the empty list.
\<close>

theorem file_without_kept_import_dropped:
  "''m/c/modular_c.py'' \<in> set example_files \<and>
   extract_classes_and_imports example_parse ''m/c/modular_c.py'' = Inr {} \<and>
   find_priority_list sorted_list_of_set example_parse example_files =
     Some (Inr ([''m/a/modular_a.py'', ''m/b/modular_b.py''], example_dependencies)) \<and>
   ''m/c/modular_c.py'' \<notin> set [''m/a/modular_a.py'', ''m/b/modular_b.py''] \<and>
   find_priority_list sorted_list_of_set example_parse [''m/c/modular_c.py''] = Some (Inr ([], []))"
proof -
  have 1: "''m/c/modular_c.py'' \<in> set example_files" by (simp add: example_files_def)
  have 2: "extract_classes_and_imports example_parse ''m/c/modular_c.py'' = Inr {}"
    by code_simp
  have 3: "''m/c/modular_c.py'' \<notin> set [''m/a/modular_a.py'', ''m/b/modular_b.py'']" by simp
  have 4: "find_priority_list sorted_list_of_set example_parse [''m/c/modular_c.py''] =
             Some (Inr ([], []))"
    by (simp add: find_priority_list_def map_dependencies_def 2 topological_sort_def
        build_graph_def keys_def peel_Nil)
  from 1 2 example_run 3 4 show ?thesis by blast
qed

end
